theory Spec2Isabelle
  imports Main "HOL-Library.Word" "HOL-Library.Multiset"
begin

unbundle bit_operations_syntax

section \<open>Machine integers, bytes and the frame header encoding\<close>

text \<open>
  Go's \<^verbatim>\<open>uint64\<close>, \<^verbatim>\<open>int64\<close> and (on a 64-bit platform) \<^verbatim>\<open>int\<close> are all 64 bits wide and the
  conversions between them keep the bits, so one type \<open>u64\<close> carries all three. Unsigned
  comparisons are \<open><\<close> and \<open>\<le>\<close> on words, signed ones are \<open><s\<close> and \<open>\<le>s\<close>; \<open>+\<close> and \<open>-\<close>
  wrap around as the hardware does.
\<close>

type_synonym byte = "8 word"
type_synonym u64 = "64 word"

text \<open>
  \<^verbatim>\<open>segHeader.marshal\<close> and \<^verbatim>\<open>unmarshal\<close> reinterpret the 16 bytes of the struct in memory. On a
  little-endian machine that is \<^verbatim>\<open>off\<close> and then \<^verbatim>\<open>size\<close>, each as eight bytes, least
  significant first.
\<close>

definition le64 :: "u64 \<Rightarrow> byte list" where
  "le64 w = map (\<lambda>i. ucast (drop_bit (8 * i) w)) [0..<8]"

fun un64 :: "byte list \<Rightarrow> u64" where
  "un64 [] = 0"
| "un64 (b # bs) = ucast b OR push_bit 8 (un64 bs)"

definition segHeaderSize :: u64 where
  "segHeaderSize = 16"

record seg =
  off :: u64
  size' :: u64
  pos :: u64
  data :: "byte list"

definition marshal :: "seg \<Rightarrow> byte list" where
  "marshal h = le64 (off h) @ le64 (size' h)"

definition unmarshal :: "byte list \<Rightarrow> u64 \<times> u64" where
  "unmarshal b = (un64 (take 8 b), un64 (take 8 (drop 8 b)))"

section \<open>The backing store: \<^verbatim>\<open>os.File\<close>\<close>

text \<open>
  The handle of one shard. \<open>contents\<close> are the bytes of the file, \<open>closed\<close> says that
  \<^verbatim>\<open>Close\<close> has been called on the handle, and \<open>failing\<close> that the device under it answers
  every system call with an I/O error. Positioned reads and writes follow the \<^verbatim>\<open>os\<close>
  package: a negative offset is refused first, an empty buffer then needs no system call
  and succeeds, a read that stops short of the buffer reports \<^verbatim>\<open>io.EOF\<close>, and a write past
  the end fills the gap with zero bytes.
\<close>

datatype error = EOF | ErrClosed | ErrNegativeOffset | EIO

datatype panic = SliceBounds | MakeSliceLen

record osfile =
  contents :: "byte list"
  closed :: bool
  failing :: bool

definition os_ReadAt :: "osfile \<Rightarrow> nat \<Rightarrow> u64 \<Rightarrow> byte list \<times> error option" where
  "os_ReadAt f len offset =
     (if offset <s 0 then ([], Some ErrNegativeOffset)
      else if len = 0 then ([], None)
      else if closed f then ([], Some ErrClosed)
      else if failing f then ([], Some EIO)
      else let bs = take len (drop (unat offset) (contents f))
           in (bs, if length bs < len then Some EOF else None))"

definition pwrite :: "byte list \<Rightarrow> nat \<Rightarrow> byte list \<Rightarrow> byte list" where
  "pwrite cs p b = take p cs @ replicate (p - length cs) 0 @ b @ drop (p + length b) cs"

definition os_WriteAt :: "osfile \<Rightarrow> byte list \<Rightarrow> u64 \<Rightarrow> osfile \<times> nat \<times> error option" where
  "os_WriteAt f b offset =
     (if offset <s 0 then (f, 0, Some ErrNegativeOffset)
      else if b = [] then (f, 0, None)
      else if closed f then (f, 0, Some ErrClosed)
      else if failing f then (f, 0, Some EIO)
      else (f\<lparr>contents := pwrite (contents f) (unat offset) b\<rparr>, length b, None))"

definition os_Close :: "osfile \<Rightarrow> osfile \<times> error option" where
  "os_Close f =
     (if closed f then (f, Some ErrClosed)
      else (f\<lparr>closed := True\<rparr>, if failing f then Some EIO else None))"

section \<open>Merging two frame sequences: \<^verbatim>\<open>mergeSegs\<close>\<close>

text \<open>
  The condition of the \<^verbatim>\<open>if\<close> in the merge loop, on \<^verbatim>\<open>m[i]\<close> and \<^verbatim>\<open>n[j]\<close>; the comparisons
  are on \<^verbatim>\<open>uint64\<close>.
\<close>

definition keeps_m :: "seg \<Rightarrow> seg \<Rightarrow> bool" where
  "keeps_m x y \<longleftrightarrow>
     off y < off x \<or> off x = off y \<and> (size' x = size' y \<or> size' y < size' x)"

text \<open>The second loop, \<^verbatim>\<open>for j >= 0\<close>, which copies what is left of \<^verbatim>\<open>n\<close>.\<close>

function copy_rest :: "seg list \<Rightarrow> seg list \<Rightarrow> int \<Rightarrow> int \<Rightarrow> seg list" where
  "copy_rest m n j k =
     (if j \<ge> 0 then copy_rest (m[nat k := n ! nat j]) n (j - 1) (k - 1) else m)"
  by pat_completeness auto
termination
  by (relation "measure (\<lambda>(m, n, j, k). nat (j + 1))") auto

declare copy_rest.simps [simp del]

text \<open>The first loop, \<^verbatim>\<open>for i >= 0 && j >= 0\<close>, followed by the second.\<close>

function merge_loop :: "seg list \<Rightarrow> seg list \<Rightarrow> int \<Rightarrow> int \<Rightarrow> int \<Rightarrow> seg list" where
  "merge_loop m n i j k =
     (if i \<ge> 0 \<and> j \<ge> 0 then
        (if keeps_m (m ! nat i) (n ! nat j)
         then merge_loop (m[nat k := m ! nat i]) n (i - 1) j (k - 1)
         else merge_loop (m[nat k := n ! nat j]) n i (j - 1) (k - 1))
      else copy_rest m n j k)"
  by pat_completeness auto
termination
  by (relation "measure (\<lambda>(m, n, i, j, k). nat (i + 1) + nat (j + 1))") auto

declare merge_loop.simps [simp del]

definition mergeSegs :: "seg list \<Rightarrow> seg list \<Rightarrow> seg list" where
  "mergeSegs a b =
     (if length a = 0 then b
      else if length b = 0 then a
      else let m = (if length a < length b then b else a);
               n = (if length a < length b then a else b)
           in merge_loop (m @ n) n (int (length m) - 1) (int (length n) - 1)
                (int (length m) + int (length n) - 1))"

section \<open>One shard: \<^verbatim>\<open>SegFile\<close>\<close>

text \<open>
  The fields \<^verbatim>\<open>file\<close> (here \<open>file'\<close>), \<^verbatim>\<open>size\<close>, \<^verbatim>\<open>off\<close> and \<^verbatim>\<open>segs\<close> of \<^verbatim>\<open>SegFile\<close>; \<^verbatim>\<open>size\<close> and \<^verbatim>\<open>off\<close> are
  \<^verbatim>\<open>int64\<close>. The name of the file is only used to open it.
\<close>

record SegFile =
  file' :: osfile
  fsize :: u64
  foff :: u64
  segs :: "seg list"

text \<open>
  The replay loop of \<^verbatim>\<open>OpenSegFile\<close>. A header whose length field makes the cursor wrap
  around can send the loop over the same bytes again, so the loop is a partial function:
  \<open>None\<close> is a replay that does not return.
\<close>

partial_function (option) replay :: "SegFile \<Rightarrow> u64 \<Rightarrow> (error + SegFile) option" where
  "replay f offset =
     (case os_ReadAt (file' f) (unat segHeaderSize) offset of
        (buf, Some e) \<Rightarrow> if e \<noteq> EOF then Some (Inl e) else Some (Inr f)
      | (buf, None) \<Rightarrow>
          if length buf \<noteq> unat segHeaderSize then Some (Inr f)
          else let h = unmarshal buf;
                   s = \<lparr>off = fst h, size' = snd h, pos = offset + segHeaderSize, data = []\<rparr>;
                   f' = f\<lparr>segs := segs f @ [s],
                          foff := foff f + (segHeaderSize + size' s),
                          fsize := off s + size' s\<rparr>
               in replay f' (foff f'))"

declare replay.simps [code]

text \<open>
  \<^verbatim>\<open>OpenSegFile\<close>. The outcome of \<^verbatim>\<open>os.OpenFile\<close> on the shard's name is the argument: an
  error, or a handle on the bytes the file holds (none when the file did not exist).
\<close>

definition OpenSegFile :: "error + osfile \<Rightarrow> (error + SegFile) option" where
  "OpenSegFile opened =
     (case opened of
        Inl e \<Rightarrow> Some (Inl e)
      | Inr fl \<Rightarrow> replay \<lparr>file' = fl, fsize = 0, foff = 0, segs = []\<rparr> 0)"

text \<open>
  \<^verbatim>\<open>SegFile.WriteAt\<close>. The result of writing the header is dropped, as in the source; the
  descriptor is appended and the cursor advanced whatever the second write returned.
\<close>

definition SegFile_WriteAt :: "SegFile \<Rightarrow> byte list \<Rightarrow> u64 \<Rightarrow> SegFile \<times> nat \<times> error option" where
  "SegFile_WriteAt f b offset =
     (let s = \<lparr>off = offset, size' = of_nat (length b), pos = foff f + segHeaderSize, data = []\<rparr>;
          w1 = os_WriteAt (file' f) (marshal s) (foff f);
          w2 = os_WriteAt (fst w1) b (pos s)
      in (f\<lparr>file' := fst w2,
            segs := segs f @ [s],
            foff := foff f + (segHeaderSize + size' s),
            fsize := fsize f + size' s\<rparr>,
          fst (snd w2), snd (snd w2)))"

text \<open>
  \<^verbatim>\<open>sort.Search\<close> of the Go library: the binary search for the least index in \<open>[0, n)\<close> at
  which \<open>p\<close> holds, \<open>n\<close> when the search finds none.
\<close>

function search_loop :: "(nat \<Rightarrow> bool) \<Rightarrow> nat \<Rightarrow> nat \<Rightarrow> nat" where
  "search_loop p i j =
     (if i < j then
        (let h = (i + j) div 2
         in if \<not> p h then search_loop p (h + 1) j else search_loop p i h)
      else i)"
  by pat_completeness auto
termination
  by (relation "measure (\<lambda>(p, i, j). j - i)") auto

declare search_loop.simps [simp del]

definition Search :: "nat \<Rightarrow> (nat \<Rightarrow> bool) \<Rightarrow> nat" where
  "Search n p = search_loop p 0 n"

text \<open>
  \<^verbatim>\<open>make([]byte, s.size)\<close> panics when the length is beyond what the runtime can allocate
  (\<open>2 ^ 48\<close> bytes on the 64-bit platforms).
\<close>

definition maxAlloc :: u64 where
  "maxAlloc = 281474976710656"

text \<open>
  The scan of \<^verbatim>\<open>SegFile.ReadAt\<close> over the descriptors from \<^verbatim>\<open>start\<close> on. The buffer of a
  frame has the length of its header whatever the read returned; the error kept is the
  one of the last payload read.
\<close>

fun scan :: "osfile \<Rightarrow> u64 \<Rightarrow> u64 \<Rightarrow> seg list \<Rightarrow> seg list \<Rightarrow> error option
    \<Rightarrow> panic + (seg list \<times> error option)" where
  "scan fl offset wsize [] acc err = Inr (acc, err)"
| "scan fl offset wsize (s # rest) acc err =
     (if off s + size' s \<le>s offset then scan fl offset wsize rest acc err
      else if offset + wsize \<le>s off s then Inr (acc, err)
      else if maxAlloc < size' s then Inl MakeSliceLen
      else let r = os_ReadAt fl (unat (size' s)) (pos s);
               b = fst r @ replicate (unat (size' s) - length (fst r)) 0
           in scan fl offset wsize rest (acc @ [s\<lparr>data := b\<rparr>]) (snd r))"

definition SegFile_ReadAt :: "SegFile \<Rightarrow> u64 \<Rightarrow> u64 \<Rightarrow> panic + (seg list \<times> error option)" where
  "SegFile_ReadAt f offset wsize =
     (let idx = Search (length (segs f)) (\<lambda>i. offset < off (segs f ! i));
          start = (if int idx - 1 < 0 then 0 else idx - 1)
      in scan (file' f) offset wsize (drop start (segs f)) [] None)"

definition SegFile_Close :: "SegFile \<Rightarrow> SegFile \<times> error option" where
  "SegFile_Close f = (let c = os_Close (file' f) in (f\<lparr>file' := fst c\<rparr>, snd c))"

section \<open>The merged store: \<^verbatim>\<open>File\<close>\<close>

definition numFiles :: nat where
  "numFiles = 2"

record File =
  files :: "SegFile list"
  msize :: u64

text \<open>
  \<^verbatim>\<open>OpenFile\<close>, on the outcomes of \<^verbatim>\<open>os.OpenFile\<close> for the names of the shards in turn.
\<close>

fun OpenFile_loop :: "(error + osfile) list \<Rightarrow> SegFile list \<Rightarrow> u64 \<Rightarrow> (error + File) option" where
  "OpenFile_loop [] fs sz = Some (Inr \<lparr>files = fs, msize = sz\<rparr>)"
| "OpenFile_loop (opened # rest) fs sz =
     (case OpenSegFile opened of
        None \<Rightarrow> None
      | Some (Inl e) \<Rightarrow> Some (Inl e)
      | Some (Inr sf) \<Rightarrow> OpenFile_loop rest (fs @ [sf]) (if sz <s fsize sf then fsize sf else sz))"

definition OpenFile :: "(nat \<Rightarrow> error + osfile) \<Rightarrow> (error + File) option" where
  "OpenFile fsys = OpenFile_loop (map fsys [0..<numFiles]) [] 0"

text \<open>
  \<^verbatim>\<open>File.WriteAt\<close>. The shard is \<^verbatim>\<open>f.files[rand.Intn(len(f.files))]\<close>; the number drawn is the
  argument \<open>k\<close>, which is below \<open>length (files f)\<close>.
\<close>

definition File_WriteAt :: "File \<Rightarrow> nat \<Rightarrow> byte list \<Rightarrow> u64 \<Rightarrow> File \<times> nat \<times> error option" where
  "File_WriteAt f k b offset =
     (let w = SegFile_WriteAt (files f ! k) b offset;
          f' = f\<lparr>files := (files f)[k := fst w]\<rparr>
      in if snd (snd w) \<noteq> None then (f', fst (snd w), snd (snd w))
         else (f'\<lparr>msize := msize f + of_nat (length b)\<rparr>, fst (snd w), snd (snd w)))"

text \<open>
  The first loop of \<^verbatim>\<open>File.ReadAt\<close>: every shard is asked for its frames and the answers
  are merged one after the other. An error other than \<^verbatim>\<open>io.EOF\<close> ends the read.
\<close>

fun gather :: "SegFile list \<Rightarrow> u64 \<Rightarrow> u64 \<Rightarrow> seg list \<Rightarrow> panic + (error + seg list)" where
  "gather [] offset wsize acc = Inr (Inr acc)"
| "gather (sf # rest) offset wsize acc =
     (case SegFile_ReadAt sf offset wsize of
        Inl p \<Rightarrow> Inl p
      | Inr (ss, err) \<Rightarrow>
          if err \<noteq> None \<and> err \<noteq> Some EOF then Inr (Inl (the err))
          else gather rest offset wsize (mergeSegs acc ss))"

text \<open>
  The second loop of \<^verbatim>\<open>File.ReadAt\<close>, its body first. The slice expression \<^verbatim>\<open>b[n:n+readSize]\<close> panics when
  \<^verbatim>\<open>readSize\<close> is negative (it is never more than \<^verbatim>\<open>length - n\<close>), and \<^verbatim>\<open>s.data[segOff:]\<close>
  when \<^verbatim>\<open>segOff\<close> is negative or beyond the frame's bytes. \<^verbatim>\<open>copy\<close> moves as many bytes as
  the shorter of the two slices holds.
\<close>

definition copy_step :: "seg \<Rightarrow> byte list \<Rightarrow> u64 \<Rightarrow> nat \<Rightarrow> panic + (byte list \<times> u64 \<times> nat)" where
  "copy_step s b offset n =
     (let segOff = offset - off s;
          segRemain = size' s - segOff;
          readSize = (if int (length b) - int n < sint segRemain
                      then int (length b) - int n else sint segRemain)
      in if readSize < 0 then Inl SliceBounds
         else if sint segOff < 0 \<or> int (length (data s)) < sint segOff then Inl SliceBounds
         else let num = min (nat readSize) (length (data s) - nat (sint segOff));
                  b' = take n b @ take num (drop (nat (sint segOff)) (data s)) @ drop (n + num) b
              in Inr (b', offset + of_nat num, n + num))"

fun copy_loop :: "seg list \<Rightarrow> byte list \<Rightarrow> u64 \<Rightarrow> nat \<Rightarrow> panic + (byte list \<times> nat)" where
  "copy_loop [] b offset n = Inr (b, n)"
| "copy_loop (s # rest) b offset n =
     (if \<not> n < length b then Inr (b, n)
      else case copy_step s b offset n of
             Inl p \<Rightarrow> Inl p
           | Inr r \<Rightarrow> copy_loop rest (fst r) (fst (snd r)) (snd (snd r)))"

text \<open>
  \<^verbatim>\<open>File.ReadAt\<close> returns the buffer as the call leaves it, the count \<^verbatim>\<open>n\<close> and the error.
  The \<^verbatim>\<open>err\<close> declared inside the first loop hides the result of that name, so a read that
  gets as far as the copy returns no error.
\<close>

definition File_ReadAt :: "File \<Rightarrow> byte list \<Rightarrow> u64 \<Rightarrow> panic + (byte list \<times> nat \<times> error option)" where
  "File_ReadAt f b offset =
     (if msize f <s offset then Inr (b, 0, Some EOF)
      else case gather (files f) offset (of_nat (length b)) [] of
             Inl p \<Rightarrow> Inl p
           | Inr (Inl e) \<Rightarrow> Inr (b, 0, Some e)
           | Inr (Inr ss) \<Rightarrow>
               (case copy_loop ss b offset 0 of
                  Inl p \<Rightarrow> Inl p
                | Inr (b', n) \<Rightarrow> Inr (b', n, None)))"

text \<open>\<^verbatim>\<open>File.Close\<close>: the loop returns at the first shard whose \<^verbatim>\<open>Close\<close> fails.\<close>

fun Close_loop :: "SegFile list \<Rightarrow> SegFile list \<times> error option" where
  "Close_loop [] = ([], None)"
| "Close_loop (sf # rest) =
     (let c = SegFile_Close sf
      in if snd c \<noteq> None then (fst c # rest, snd c)
         else (fst c # fst (Close_loop rest), snd (Close_loop rest)))"

definition File_Close :: "File \<Rightarrow> File \<times> error option" where
  "File_Close f = (let c = Close_loop (files f) in (f\<lparr>files := fst c\<rparr>, snd c))"

section \<open>Orders on frames\<close>

text \<open>
  \<open>off_le\<close> compares two frames by offset alone. \<open>seg_le\<close> is the order by offset and,
  at equal offsets, by length; \<open>seg_ge\<close> is its converse, the order in which the spec says
  the merge lists the frames (descending offset, the larger frame first on a tie).
\<close>

definition off_le :: "seg \<Rightarrow> seg \<Rightarrow> bool" where
  "off_le x y \<longleftrightarrow> off x \<le> off y"

definition seg_le :: "seg \<Rightarrow> seg \<Rightarrow> bool" where
  "seg_le x y \<longleftrightarrow> off x < off y \<or> off x = off y \<and> size' x \<le> size' y"

definition seg_ge :: "seg \<Rightarrow> seg \<Rightarrow> bool" where
  "seg_ge x y \<longleftrightarrow> off y < off x \<or> off x = off y \<and> size' y \<le> size' x"

text \<open>
  The merge as a function on the two inputs read from their ends: the lists are given
  last element first, and so is the result.
\<close>

fun rmerge :: "seg list \<Rightarrow> seg list \<Rightarrow> seg list" where
  "rmerge [] ys = ys"
| "rmerge xs [] = xs"
| "rmerge (x # xs) (y # ys) =
     (if keeps_m x y then x # rmerge xs (y # ys) else y # rmerge (x # xs) ys)"

section \<open>Stores built by writing\<close>

text \<open>
  The store \<^verbatim>\<open>OpenFile\<close> returns when no shard file existed: two empty shards on working
  handles. \<open>writes\<close> applies a sequence of \<^verbatim>\<open>File.WriteAt\<close> calls, each given as the shard
  drawn, the payload and the logical offset. \<open>reopen\<close> is \<^verbatim>\<open>OpenFile\<close> on the bytes the shards
  of a store hold, through new handles.
\<close>

definition emptyfile :: osfile where
  "emptyfile = \<lparr>contents = [], closed = False, failing = False\<rparr>"

definition fresh :: File where
  "fresh = \<lparr>files = [\<lparr>file' = emptyfile, fsize = 0, foff = 0, segs = []\<rparr>,
                     \<lparr>file' = emptyfile, fsize = 0, foff = 0, segs = []\<rparr>],
            msize = 0\<rparr>"

fun writes :: "File \<Rightarrow> (nat \<times> byte list \<times> u64) list \<Rightarrow> File" where
  "writes f [] = f"
| "writes f ((k, b, offset) # ws) = writes (fst (File_WriteAt f k b offset)) ws"


section \<open>Shard logs and the positions of their frames\<close>

text \<open>
  \<open>log_inv\<close> is the relation between the descriptors of a shard and its append cursor:
  the first payload starts at 16, each later one 16 bytes after the end of the payload
  before it, and the cursor is the sum of \<open>16 + size\<close> over the descriptors. All of it is
  arithmetic on 64-bit values, as in the code.
\<close>

fun consecutive :: "seg list \<Rightarrow> bool" where
  "consecutive (s # t # rest) \<longleftrightarrow> pos t = pos s + size' s + 16 \<and> consecutive (t # rest)"
| "consecutive _ \<longleftrightarrow> True"

definition log_inv :: "SegFile \<Rightarrow> bool" where
  "log_inv f \<longleftrightarrow>
     (segs f = [] \<or> pos (hd (segs f)) = 16)
     \<and> consecutive (segs f)
     \<and> foff f = sum_list (map (\<lambda>s. 16 + size' s) (segs f))"

text \<open>
  The bytes of a log that holds the given frames (offset and payload) and nothing else,
  the descriptors a replay from cursor \<open>p\<close> makes of them, and the \<^verbatim>\<open>size\<close> field it leaves.
\<close>

definition frame_bytes :: "u64 \<times> byte list \<Rightarrow> byte list" where
  "frame_bytes fr = le64 (fst fr) @ le64 (of_nat (length (snd fr))) @ snd fr"

definition encode_log :: "(u64 \<times> byte list) list \<Rightarrow> byte list" where
  "encode_log frs = concat (map frame_bytes frs)"

fun descs_from :: "u64 \<Rightarrow> (u64 \<times> byte list) list \<Rightarrow> seg list" where
  "descs_from p [] = []"
| "descs_from p (fr # rest) =
     \<lparr>off = fst fr, size' = of_nat (length (snd fr)), pos = p + 16, data = []\<rparr>
       # descs_from (p + (16 + of_nat (length (snd fr)))) rest"

fun last_end :: "u64 \<Rightarrow> (u64 \<times> byte list) list \<Rightarrow> u64" where
  "last_end d [] = d"
| "last_end d (fr # rest) = last_end (fst fr + of_nat (length (snd fr))) rest"

section \<open>Windows and the frames that meet them\<close>

text \<open>
  A frame meets the window of \<open>wsize\<close> bytes at \<open>offset\<close> when it ends after the window's
  start and starts before the window's end, both read as natural numbers. \<open>ends_before\<close>
  says that one frame ends at or before the offset of another. \<open>load\<close> is a descriptor
  with the payload that \<^verbatim>\<open>SegFile.ReadAt\<close> reads for it, and \<open>scan_err\<close> the error of the
  last payload read of a sequence of them.
\<close>

definition in_window :: "u64 \<Rightarrow> u64 \<Rightarrow> seg \<Rightarrow> bool" where
  "in_window offset wsize s \<longleftrightarrow>
     unat offset < unat (off s) + unat (size' s) \<and> unat (off s) < unat offset + unat wsize"

definition ends_before :: "seg \<Rightarrow> seg \<Rightarrow> bool" where
  "ends_before x y \<longleftrightarrow> unat (off x) + unat (size' x) \<le> unat (off y)"

definition in_range :: "seg \<Rightarrow> bool" where
  "in_range s \<longleftrightarrow> unat (off s) + unat (size' s) < 2 ^ 63 \<and> size' s \<le> maxAlloc"

definition load :: "osfile \<Rightarrow> seg \<Rightarrow> seg" where
  "load fl s =
     s\<lparr>data := fst (os_ReadAt fl (unat (size' s)) (pos s))
                 @ replicate (unat (size' s) - length (fst (os_ReadAt fl (unat (size' s)) (pos s)))) 0\<rparr>"

fun scan_err :: "osfile \<Rightarrow> error option \<Rightarrow> seg list \<Rightarrow> error option" where
  "scan_err fl err [] = err"
| "scan_err fl err (s # rest) = scan_err fl (snd (os_ReadAt fl (unat (size' s)) (pos s))) rest"

section \<open>The state of a store after a sequence of writes\<close>



definition log_bytes :: "(nat \<times> byte list \<times> u64) list \<Rightarrow> nat" where
  "log_bytes ws = sum_list (map (\<lambda>w. 16 + length (fst (snd w))) ws)"





section \<open>The merge loop computes the merge from the ends\<close>

lemma keeps_m_ge: "keeps_m x y \<longleftrightarrow> seg_ge x y"
  by (auto simp: keeps_m_def seg_ge_def)

lemma seg_ge_le: "seg_ge x y \<longleftrightarrow> seg_le y x"
  by (auto simp: seg_ge_def seg_le_def)

lemma rmerge_Nil2: "rmerge xs [] = xs"
  by (cases xs) simp_all

lemma set_rmerge: "set (rmerge xs ys) = set xs \<union> set ys"
  by (induction xs ys rule: rmerge.induct) auto

lemma mset_rmerge: "mset (rmerge xs ys) = mset xs + mset ys"
  by (induction xs ys rule: rmerge.induct) auto

text \<open>
  Any transitive relation that agrees with the loop's test is kept by the merge: whichever
  element the test puts first is related to all that follow.
\<close>

lemma sorted_rmerge:
  assumes trans: "\<And>x y z. R x y \<Longrightarrow> R y z \<Longrightarrow> R x z"
    and yes: "\<And>x y. keeps_m x y \<Longrightarrow> R x y"
    and no: "\<And>x y. \<not> keeps_m x y \<Longrightarrow> R y x"
  shows "sorted_wrt R xs \<Longrightarrow> sorted_wrt R ys \<Longrightarrow> sorted_wrt R (rmerge xs ys)"
proof (induction xs ys rule: rmerge.induct)
  case (3 x xs y ys)
  show ?case
  proof (cases "keeps_m x y")
    case True
    then have xy: "R x y" by (rule yes)
    have "\<forall>z \<in> set (rmerge xs (y # ys)). R x z"
      using "3.prems" xy by (auto simp: set_rmerge intro: trans)
    then show ?thesis using True 3 by simp
  next
    case False
    then have yx: "R y x" by (rule no)
    have "\<forall>z \<in> set (rmerge (x # xs) ys). R y z"
      using "3.prems" yx by (auto simp: set_rmerge intro: trans)
    then show ?thesis using False 3 by simp
  qed
qed simp_all

lemma copy_rest_eq:
  "j = int nj - 1 \<Longrightarrow> k = int nk - 1 \<Longrightarrow> nj \<le> nk \<Longrightarrow> nj \<le> length n \<Longrightarrow> nk \<le> length mc \<Longrightarrow>
   copy_rest mc n j k = take (nk - nj) mc @ take nj n @ drop nk mc"
proof (induction mc n j k arbitrary: nj nk rule: copy_rest.induct)
  case (1 m n j k)
  show ?case
  proof (cases "j \<ge> 0")
    case False
    then have "nj = 0" using 1 by simp
    then show ?thesis using False by (subst copy_rest.simps) simp
  next
    case True
    then obtain nj' where nj: "nj = Suc nj'" using 1(2) by (cases nj) auto
    then obtain nk' where nk: "nk = Suc nk'" using 1(4) by (cases nk) auto
    have j: "nat j = nj'" "nat k = nk'" using 1 nj nk by auto
    have IH: "copy_rest (m[nat k := n ! nat j]) n (j - 1) (k - 1)
        = take (nk' - nj') (m[nat k := n ! nat j]) @ take nj' n @ drop nk' (m[nat k := n ! nat j])"
      using True 1 nj nk by (intro "1.IH") auto
    have "drop nk' (m[nk' := n ! nj']) = (n ! nj') # drop nk m"
      using 1 nk by (simp add: drop_update_cancel Cons_nth_drop_Suc[symmetric] upd_conv_take_nth_drop)
    moreover have "take nj n = take nj' n @ [n ! nj']"
      using 1 nj by (simp add: take_Suc_conv_app_nth)
    moreover have "take (nk' - nj') (m[nk' := n ! nj']) = take (nk - nj) m"
      using nj nk by simp
    ultimately show ?thesis
      using True IH j by (subst copy_rest.simps) simp
  qed
qed

text \<open>
  The invariant of the first loop: with \<open>ni = i + 1\<close> elements of \<open>m\<close> and \<open>nj = j + 1\<close> of
  \<open>n\<close> still to place and \<open>k = i + j + 1\<close>, the slots above \<open>k\<close> hold what has been placed, and
  what the loop still does is the merge of the two remaining prefixes.
\<close>

lemma merge_loop_eq:
  "i = int ni - 1 \<Longrightarrow> j = int nj - 1 \<Longrightarrow> k = int (ni + nj) - 1 \<Longrightarrow>
   nj \<le> length n \<Longrightarrow> ni + nj \<le> length mc \<Longrightarrow>
   merge_loop mc n i j k
     = rev (rmerge (rev (take ni mc)) (rev (take nj n))) @ drop (ni + nj) mc"
proof (induction mc n i j k arbitrary: ni nj rule: merge_loop.induct)
  case (1 m n i j k)
  show ?case
  proof (cases "i \<ge> 0 \<and> j \<ge> 0")
    case False
    have ml: "merge_loop m n i j k = copy_rest m n j k"
      by (subst merge_loop.simps) (simp only: False if_False)
    from False consider "ni = 0" | "nj = 0" using 1 by fastforce
    then show ?thesis
    proof cases
      case 1
      have "copy_rest m n j k = take (nj - nj) m @ take nj n @ drop nj m"
        using \<open>j = _\<close> \<open>k = _\<close> 1 \<open>nj \<le> length n\<close> \<open>ni + nj \<le> length m\<close>
        by (intro copy_rest_eq) auto
      then show ?thesis using ml 1 by simp
    next
      case 2
      have "copy_rest m n j k = m" using 2 \<open>j = _\<close> by (subst copy_rest.simps) simp
      then show ?thesis using ml 2 by (simp add: rmerge_Nil2)
    qed
  next
    case True
    then obtain ni' where ni: "ni = Suc ni'" using 1(3) by (cases ni) auto
    from True obtain nj' where nj: "nj = Suc nj'" using 1(4) by (cases nj) auto
    have idx: "nat i = ni'" "nat j = nj'" "nat k = ni' + nj' + 1"
      using 1(3,4,5) ni nj by auto
    have tm: "rev (take ni m) = m ! ni' # rev (take ni' m)"
      using 1(7) ni by (simp add: take_Suc_conv_app_nth)
    have tn: "rev (take nj n) = n ! nj' # rev (take nj' n)"
      using 1(6) nj by (simp add: take_Suc_conv_app_nth)
    have len: "ni' + nj' + 1 < length m" using 1(7) ni nj by simp
    show ?thesis
    proof (cases "keeps_m (m ! nat i) (n ! nat j)")
      case k: True
      have IH: "merge_loop (m[nat k := m ! nat i]) n (i - 1) j (k - 1)
         = rev (rmerge (rev (take ni' (m[nat k := m ! nat i]))) (rev (take nj n)))
             @ drop (ni' + nj) (m[nat k := m ! nat i])"
        using True k 1(3-7) ni nj by (intro "1.IH"(1)) auto
      have d: "drop (ni' + nj) (m[nat k := m ! nat i]) = m ! ni' # drop (ni + nj) m"
        using len idx ni nj by (simp add: upd_conv_take_nth_drop)
      have t: "take ni' (m[nat k := m ! nat i]) = take ni' m"
        using idx by simp
      show ?thesis
        using True k IH d t tm tn idx by (subst merge_loop.simps) simp
    next
      case k: False
      have IH: "merge_loop (m[nat k := n ! nat j]) n i (j - 1) (k - 1)
         = rev (rmerge (rev (take ni (m[nat k := n ! nat j]))) (rev (take nj' n)))
             @ drop (ni + nj') (m[nat k := n ! nat j])"
        using True k 1(3-7) ni nj by (intro "1.IH"(2)) auto
      have d: "drop (ni + nj') (m[nat k := n ! nat j]) = n ! nj' # drop (ni + nj) m"
        using len idx ni nj by (simp add: upd_conv_take_nth_drop)
      have t: "take ni (m[nat k := n ! nat j]) = take ni m"
        using idx ni by simp
      show ?thesis
        using True k IH d t tm tn idx by (subst merge_loop.simps) simp
    qed
  qed
qed

lemma mergeSegs_rmerge:
  "mergeSegs a b =
     (if a = [] then b else if b = [] then a
      else if length a < length b then rev (rmerge (rev b) (rev a))
      else rev (rmerge (rev a) (rev b)))"
proof -
  have *: "merge_loop (m @ n) n (int (length m) - 1) (int (length n) - 1)
              (int (length m) + int (length n) - 1) = rev (rmerge (rev m) (rev n))" for m n
    using merge_loop_eq[of "int (length m) - 1" "length m" "int (length n) - 1" "length n"
        "int (length m) + int (length n) - 1" n "m @ n"]
    by simp
  show ?thesis by (simp add: mergeSegs_def * Let_def)
qed

lemma mset_mergeSegs: "mset (mergeSegs a b) = mset a + mset b"
  by (simp add: mergeSegs_rmerge mset_rmerge)

lemma set_mergeSegs: "set (mergeSegs a b) = set a \<union> set b"
  by (auto simp: mergeSegs_rmerge set_rmerge)

lemma sorted_mergeSegs:
  assumes trans: "\<And>x y z. R x y \<Longrightarrow> R y z \<Longrightarrow> R x z"
    and yes: "\<And>x y. keeps_m x y \<Longrightarrow> R y x"
    and no: "\<And>x y. \<not> keeps_m x y \<Longrightarrow> R x y"
  shows "sorted_wrt R a \<Longrightarrow> sorted_wrt R b \<Longrightarrow> sorted_wrt R (mergeSegs a b)"
proof -
  assume a: "sorted_wrt R a" and b: "sorted_wrt R b"
  have "sorted_wrt (\<lambda>x y. R y x) (rmerge (rev xs) (rev ys))"
    if "sorted_wrt R xs" "sorted_wrt R ys" for xs ys
    using that by (intro sorted_rmerge) (auto simp: sorted_wrt_rev intro: trans yes no)
  then have "sorted_wrt R (rev (rmerge (rev xs) (rev ys)))"
    if "sorted_wrt R xs" "sorted_wrt R ys" for xs ys
    using that by (simp add: sorted_wrt_rev)
  then show ?thesis using a b by (simp add: mergeSegs_rmerge)
qed

lemma sorted_seg_le_mergeSegs:
  "sorted_wrt seg_le a \<Longrightarrow> sorted_wrt seg_le b \<Longrightarrow> sorted_wrt seg_le (mergeSegs a b)"
  by (rule sorted_mergeSegs) (auto simp: seg_le_def keeps_m_def)

lemma sorted_off_le_mergeSegs:
  "sorted_wrt off_le a \<Longrightarrow> sorted_wrt off_le b \<Longrightarrow> sorted_wrt off_le (mergeSegs a b)"
  by (rule sorted_mergeSegs) (auto simp: off_le_def keeps_m_def)

section \<open>Claims about the merge\<close>

text \<open>
  C3 as the spec states it, refuted: the merge of the one-frame sequences \<open>(0, 1)\<close> and
  \<open>(5, 1)\<close>, each trivially in ascending-offset order, is \<open>(0, 1)\<close> followed by \<open>(5, 1)\<close>, which
  is not in descending order of offset.
\<close>

theorem C3_descending_counterexample:
  "sorted_wrt off_le [\<lparr>off = 0, size' = 1, pos = 16, data = []\<rparr>]
   \<and> sorted_wrt off_le [\<lparr>off = 5, size' = 1, pos = 16, data = []\<rparr>]
   \<and> mergeSegs [\<lparr>off = 0, size' = 1, pos = 16, data = []\<rparr>]
                 [\<lparr>off = 5, size' = 1, pos = 16, data = []\<rparr>]
       = [\<lparr>off = 0, size' = 1, pos = 16, data = []\<rparr>, \<lparr>off = 5, size' = 1, pos = 16, data = []\<rparr>]
   \<and> \<not> sorted_wrt seg_ge
         (mergeSegs [\<lparr>off = 0, size' = 1, pos = 16, data = []\<rparr>]
                    [\<lparr>off = 5, size' = 1, pos = 16, data = []\<rparr>])"
  by (simp add: mergeSegs_rmerge keeps_m_def seg_ge_def)

text \<open>
  C3, amended: for two frame sequences each in ascending order of offset, the merge
  returns the frames of both, each as often as the inputs hold it, in ascending order of
  offset; when each input is moreover ascending by length among frames of equal offset
  (as it is when its offsets are strictly ascending), so is the result: of frames at one
  offset the larger comes last.
\<close>

theorem C3_mergeSegs_ascending:
  assumes "sorted_wrt off_le a" and "sorted_wrt off_le b"
  shows "sorted_wrt off_le (mergeSegs a b)
         \<and> mset (mergeSegs a b) = mset a + mset b
         \<and> (sorted_wrt seg_le a \<and> sorted_wrt seg_le b \<longrightarrow> sorted_wrt seg_le (mergeSegs a b))"
  using assms by (simp add: sorted_off_le_mergeSegs mset_mergeSegs sorted_seg_le_mergeSegs)

theorem C3_mergeSegs_ascending_witness:
  "sorted_wrt off_le [\<lparr>off = 0, size' = 3, pos = 16, data = []\<rparr>, \<lparr>off = 7, size' = 1, pos = 35, data = []\<rparr>]
   \<and> sorted_wrt off_le [\<lparr>off = 0, size' = 4, pos = 16, data = []\<rparr>]
   \<and> sorted_wrt seg_le [\<lparr>off = 0, size' = 3, pos = 16, data = []\<rparr>, \<lparr>off = 7, size' = 1, pos = 35, data = []\<rparr>]
   \<and> sorted_wrt seg_le [\<lparr>off = 0, size' = 4, pos = 16, data = []\<rparr>]
   \<and> sorted_wrt seg_le
         (mergeSegs [\<lparr>off = 0, size' = 3, pos = 16, data = []\<rparr>, \<lparr>off = 7, size' = 1, pos = 35, data = []\<rparr>]
                    [\<lparr>off = 0, size' = 4, pos = 16, data = []\<rparr>])"
  using C3_mergeSegs_ascending
    [of "[\<lparr>off = 0, size' = 3, pos = 16, data = []\<rparr>, \<lparr>off = 7, size' = 1, pos = 35, data = []\<rparr>]"
        "[\<lparr>off = 0, size' = 4, pos = 16, data = []\<rparr>]"]
  by (simp add: off_le_def seg_le_def)

section \<open>The header encoding and the replay of a log\<close>

lemma un64_step:
  "n \<le> 56 \<Longrightarrow> (ucast (ucast (drop_bit n w :: u64) :: byte) :: u64) OR push_bit 8 (drop_bit (n + 8) w) = drop_bit n w"
  apply (rule bit_eqI)
  apply (simp add: bit_simps)
  apply (case_tac "na < 8")
   apply (simp_all add: ac_simps)
  done

lemma le64_8: "le64 w = [ucast w, ucast (drop_bit 8 w), ucast (drop_bit 16 w), ucast (drop_bit 24 w),
  ucast (drop_bit 32 w), ucast (drop_bit 40 w), ucast (drop_bit 48 w), ucast (drop_bit 56 w)]"
  by (simp add: le64_def upt_rec)

lemma length_le64 [simp]: "length (le64 w) = 8"
  by (simp add: le64_def)

lemma un64_suffix:
  "k \<le> 8 \<Longrightarrow> un64 (map (\<lambda>i. ucast (drop_bit (8 * i) w)) [k..<8]) = drop_bit (8 * k) w"
proof (induction "8 - k" arbitrary: k)
  case 0
  then have "k = 8" by simp
  moreover have "drop_bit 64 w = 0" by (rule bit_eqI) (simp add: bit_simps)
  ultimately show ?case by simp
next
  case (Suc n)
  then have k: "k < 8" by simp
  have IH: "un64 (map (\<lambda>i. ucast (drop_bit (8 * i) w)) [Suc k..<8]) = drop_bit (8 * Suc k) w"
    using Suc k by (intro Suc.hyps(1)) auto
  have "un64 (map (\<lambda>i. ucast (drop_bit (8 * i) w)) [k..<8])
      = (ucast (ucast (drop_bit (8 * k) w :: u64) :: byte) :: u64) OR push_bit 8 (drop_bit (8 * k + 8) w)"
    using k IH by (simp only: upt_conv_Cons list.map un64.simps mult_Suc_right add.commute)
  also have "\<dots> = drop_bit (8 * k) w"
    using k by (intro un64_step) simp
  finally show ?case .
qed

lemma un64_le64 [simp]: "un64 (le64 w) = w"
  using un64_suffix[of 0 w] by (simp add: le64_def)

lemma unmarshal_marshal: "unmarshal (le64 a @ le64 b @ rest) = (a, b)"
  by (simp add: unmarshal_def)

lemma unmarshal_marshal': "unmarshal (le64 a @ le64 b) = (a, b)"
  using unmarshal_marshal[of a b "[]"] by simp


lemma sint_unat: "unat (w :: u64) < 2 ^ 63 \<Longrightarrow> sint w = int (unat w)"
proof -
  assume a: "unat w < 2 ^ 63"
  have "uint w < 2 ^ 63" using a by transfer simp
  moreover have "- (2 ^ 63) \<le> uint w"
    by (rule order_trans[where y = 0]) simp_all
  ultimately have "signed_take_bit 63 (uint w) = uint w"
    by (intro signed_take_bit_int_eq_self)
  then show ?thesis by (simp add: sint_uint)
qed

lemma not_sless0: "unat (w :: u64) < 2 ^ 63 \<Longrightarrow> \<not> w <s 0"
  by (simp add: word_sless_alt sint_unat)

lemma unat_of_nat64: "n < 2 ^ 64 \<Longrightarrow> unat (of_nat n :: u64) = n"
  by (simp add: unat_of_nat)

lemma unat_add64: "unat a + unat b < 2 ^ 64 \<Longrightarrow> unat (a + b :: u64) = unat a + unat b"
  using unat_add_lem[of a b] by simp

lemma length_frame_bytes: "length (frame_bytes fr) = 16 + length (snd fr)"
  by (simp add: frame_bytes_def)

lemma encode_log_Cons: "encode_log (fr # rest) = frame_bytes fr @ encode_log rest"
  by (simp add: encode_log_def)

lemma encode_log_Nil: "encode_log [] = []"
  by (simp add: encode_log_def)

lemma os_ReadAt_ok:
  "\<not> closed fl \<Longrightarrow> \<not> failing fl \<Longrightarrow> unat offset < 2 ^ 63 \<Longrightarrow> 0 < len \<Longrightarrow>
   os_ReadAt fl len offset =
     (take len (drop (unat offset) (contents fl)),
      if length (take len (drop (unat offset) (contents fl))) < len then Some EOF else None)"
  by (simp add: os_ReadAt_def not_sless0 Let_def)

lemma replay_end:
  assumes "\<not> closed (file' f)" "\<not> failing (file' f)" "unat offset < 2 ^ 63"
    and "length (contents (file' f)) \<le> unat offset"
  shows "replay f offset = Some (Inr f)"
  using assms by (subst replay.simps) (simp add: os_ReadAt_ok segHeaderSize_def)

lemma replay_step:
  assumes "\<not> closed (file' f)" "\<not> failing (file' f)" "unat offset < 2 ^ 63"
    and "drop (unat offset) (contents (file' f)) = le64 a @ le64 b @ rest"
  shows "replay f offset =
     replay (f\<lparr>segs := segs f @ [\<lparr>off = a, size' = b, pos = offset + 16, data = []\<rparr>],
               foff := foff f + (16 + b), fsize := a + b\<rparr>) (foff f + (16 + b))"
  using assms
  by (subst replay.simps) (simp add: os_ReadAt_ok segHeaderSize_def unmarshal_marshal' Let_def)

lemma replay_encode_log:
  assumes "\<not> closed (file' f)" "\<not> failing (file' f)"
    and "length (contents (file' f)) < 2 ^ 63"
    and "contents (file' f) = pre @ encode_log frs"
    and "unat offset = length pre" "foff f = offset"
  shows "replay f offset =
     Some (Inr (f\<lparr>segs := segs f @ descs_from offset frs,
                     foff := offset + of_nat (length (encode_log frs)),
                     fsize := last_end (fsize f) frs\<rparr>))"
  using assms
proof (induction frs arbitrary: f offset pre)
  case Nil
  have "replay f offset = Some (Inr f)"
    using Nil by (intro replay_end) (auto simp: encode_log_Nil)
  then show ?case using Nil by (simp add: encode_log_Nil)
next
  case (Cons fr frs)
  let ?b = "of_nat (length (snd fr)) :: u64"
  let ?f = "f\<lparr>segs := segs f @ [\<lparr>off = fst fr, size' = ?b, pos = offset + 16, data = []\<rparr>],
               foff := foff f + (16 + ?b), fsize := fst fr + ?b\<rparr>"
  have len: "length pre + (16 + length (snd fr)) + length (encode_log frs) < 2 ^ 63"
    using Cons.prems(3,4) by (simp add: encode_log_Cons length_frame_bytes)
  have ub: "unat ?b = length (snd fr)"
    using len by (intro unat_of_nat64) simp
  have u16: "unat (16 + ?b) = 16 + length (snd fr)"
    using len ub by (subst unat_add64) auto
  have uo: "unat (offset + (16 + ?b)) = length pre + (16 + length (snd fr))"
    using len u16 Cons.prems(5) by (subst unat_add64) auto
  have step: "replay f offset = replay ?f (foff f + (16 + ?b))"
    using Cons.prems len
    by (intro replay_step[where rest = "snd fr @ encode_log frs"])
       (auto simp: encode_log_Cons frame_bytes_def)
  have "replay ?f (offset + (16 + ?b)) =
     Some (Inr (?f\<lparr>segs := segs ?f @ descs_from (offset + (16 + ?b)) frs,
                     foff := (offset + (16 + ?b)) + of_nat (length (encode_log frs)),
                     fsize := last_end (fsize ?f) frs\<rparr>))"
    using Cons.prems uo
    by (intro Cons.IH[where pre = "pre @ frame_bytes fr"])
       (auto simp: encode_log_Cons length_frame_bytes)
  moreover have "length (encode_log (fr # frs)) = 16 + length (snd fr) + length (encode_log frs)"
    by (simp add: encode_log_Cons length_frame_bytes)
  ultimately show ?case
    using step Cons.prems(6)
    by (simp add: ac_simps)
qed

section \<open>The positions of the frames in a shard\<close>

lemma consecutive_append:
  "consecutive (ss @ [s]) \<longleftrightarrow>
     consecutive ss \<and> (ss = [] \<or> pos s = pos (last ss) + size' (last ss) + 16)"
  by (induction ss rule: consecutive.induct) auto

lemma last_pos_sum:
  "ss \<noteq> [] \<Longrightarrow> consecutive ss \<Longrightarrow>
   pos (last ss) + size' (last ss) + 16 = pos (hd ss) + sum_list (map (\<lambda>s. 16 + size' s) ss)"
  by (induction ss rule: consecutive.induct) (auto simp: algebra_simps)

lemma log_inv_append:
  assumes "log_inv f" and "pos s = foff f + 16"
    and "segs g = segs f @ [s]" and "foff g = foff f + (16 + size' s)"
  shows "log_inv g"
proof (cases "segs f = []")
  case True
  then show ?thesis using assms by (simp add: log_inv_def)
next
  case False
  have "pos (last (segs f)) + size' (last (segs f)) + 16 = 16 + foff f"
    using False assms(1) last_pos_sum[of "segs f"] by (auto simp: log_inv_def)
  then show ?thesis
    using False assms by (simp add: log_inv_def consecutive_append algebra_simps)
qed

lemma log_inv_WriteAt: "log_inv f \<Longrightarrow> log_inv (fst (SegFile_WriteAt f b offset))"
  by (rule log_inv_append[where f = f and
        s = "\<lparr>off = offset, size' = of_nat (length b), pos = foff f + 16, data = []\<rparr>"])
     (simp_all add: SegFile_WriteAt_def Let_def segHeaderSize_def)

lemma consecutive_descs_from: "consecutive (descs_from p frs)"
proof (induction frs arbitrary: p)
  case (Cons fr frs)
  show ?case using Cons[of "p + (16 + of_nat (length (snd fr)))"]
    by (cases frs) (simp_all add: algebra_simps)
qed simp

lemma sum_descs_from:
  "sum_list (map (\<lambda>s. 16 + size' s) (descs_from p frs)) = of_nat (length (encode_log frs))"
  by (induction frs arbitrary: p) (simp_all add: encode_log_Nil encode_log_Cons length_frame_bytes)

lemma hd_descs_from: "frs \<noteq> [] \<Longrightarrow> pos (hd (descs_from p frs)) = p + 16"
  by (cases frs) simp_all

lemma descs_from_Nil_iff: "descs_from p frs = [] \<longleftrightarrow> frs = []"
  by (cases frs) simp_all

lemma OpenSegFile_encode_log:
  assumes "\<not> closed fl" "\<not> failing fl" "contents fl = encode_log frs"
    and "length (encode_log frs) < 2 ^ 63"
  shows "OpenSegFile (Inr fl) =
     Some (Inr \<lparr>file' = fl, fsize = last_end 0 frs,
               foff = of_nat (length (encode_log frs)), segs = descs_from 0 frs\<rparr>)"
  using assms
    replay_encode_log[of "\<lparr>file' = fl, fsize = 0, foff = 0, segs = []\<rparr>" "[]" frs 0]
  by (simp add: OpenSegFile_def)

lemma log_inv_OpenSegFile:
  assumes "\<not> closed fl" "\<not> failing fl" "contents fl = encode_log frs"
    and "length (encode_log frs) < 2 ^ 63"
  shows "\<exists>f'. OpenSegFile (Inr fl) = Some (Inr f') \<and> log_inv f' \<and> segs f' = descs_from 0 frs"
proof -
  have "frs = [] \<or> pos (hd (descs_from 0 frs)) = 16"
    using hd_descs_from[of frs 0] by auto
  then show ?thesis
    using OpenSegFile_encode_log[OF assms]
    by (simp add: log_inv_def consecutive_descs_from sum_descs_from descs_from_Nil_iff)
qed

text \<open>
  C9: a write keeps \<open>log_inv\<close> whatever it returns, and opening a shard whose file holds
  whole frames and nothing else returns, with descriptors for exactly those frames that
  satisfy \<open>log_inv\<close>: the first payload at 16, each next one 16 bytes after the end of
  the one before, the cursor at the sum of \<open>16 + size\<close>.
\<close>

theorem C9_position_invariant:
  "(log_inv f \<longrightarrow> log_inv (fst (SegFile_WriteAt f b offset)))
   \<and> (\<not> closed fl \<and> \<not> failing fl \<and> contents fl = encode_log frs
        \<and> length (encode_log frs) < 2 ^ 63
      \<longrightarrow> (\<exists>f'. OpenSegFile (Inr fl) = Some (Inr f') \<and> log_inv f'
                \<and> segs f' = descs_from 0 frs))"
  using log_inv_WriteAt log_inv_OpenSegFile by blast

theorem C9_position_invariant_witness:
  "log_inv \<lparr>file' = emptyfile, fsize = 0, foff = 0, segs = []\<rparr>
   \<and> log_inv (fst (SegFile_WriteAt \<lparr>file' = emptyfile, fsize = 0, foff = 0, segs = []\<rparr> [1, 2] 7))
   \<and> segs (fst (SegFile_WriteAt \<lparr>file' = emptyfile, fsize = 0, foff = 0, segs = []\<rparr> [1, 2] 7))
       = [\<lparr>off = 7, size' = 2, pos = 16, data = []\<rparr>]
   \<and> (\<exists>f'. OpenSegFile (Inr \<lparr>contents = encode_log [(7, [1, 2]), (9, [3])], closed = False, failing = False\<rparr>)
              = Some (Inr f')
           \<and> log_inv f'
           \<and> segs f' = [\<lparr>off = 7, size' = 2, pos = 16, data = []\<rparr>, \<lparr>off = 9, size' = 1, pos = 34, data = []\<rparr>])"
  using C9_position_invariant
    [of "\<lparr>file' = emptyfile, fsize = 0, foff = 0, segs = []\<rparr>" "[1, 2]" 7
        "\<lparr>contents = encode_log [(7, [1, 2]), (9, [3])], closed = False, failing = False\<rparr>"
        "[(7, [1, 2]), (9, [3])]"]
  by (simp add: log_inv_def SegFile_WriteAt_def Let_def segHeaderSize_def
        encode_log_def frame_bytes_def)

section \<open>Failing inputs\<close>

lemma OpenFile_fresh: "OpenFile (\<lambda>i. Inr emptyfile) = Some (Inr fresh)"
  by code_simp

lemma File_ReadAt_past_size: "msize f <s offset \<Longrightarrow> File_ReadAt f b offset = Inr (b, 0, Some EOF)"
  by (simp add: File_ReadAt_def)

text \<open>
  C5, at its failing input. After the two bytes \<open>[1, 2]\<close> are written at offset 0 to a new
  store, its size is 2. A read of one byte at offset 2, exactly the size, returns no
  bytes and no error, where the claim (and the comment on \<^verbatim>\<open>ReadAt\<close>, "At end of file, Read
  returns 0, io.EOF") asks for \<^verbatim>\<open>io.EOF\<close>: the guard is \<^verbatim>\<open>off > f.size\<close>. At offset 3 the read
  does return \<^verbatim>\<open>io.EOF\<close>, at offset 1 it returns the byte \<open>2\<close>.
\<close>

theorem C5_read_at_extent_returns_no_eof:
  "msize (writes fresh [(0, [1, 2], 0)]) = 2
   \<and> File_ReadAt (writes fresh [(0, [1, 2], 0)]) [0] 2 = Inr ([0], 0, None)
   \<and> File_ReadAt (writes fresh [(0, [1, 2], 0)]) [0] 3 = Inr ([0], 0, Some EOF)
   \<and> File_ReadAt (writes fresh [(0, [1, 2], 0)]) [0] 1 = Inr ([2], 1, None)"
  by code_simp

text \<open>
  C6, at its failing input. On a store that has been closed, writing \<open>[1, 2]\<close> at offset 0
  through shard 0 fails with the closed-file error and reports 0 bytes written, yet the
  shard, which had no descriptor and its cursor at 0, now has the descriptor of the frame
  and its cursor at 18.
\<close>

theorem C6_failed_write_changes_shard:
  "snd (snd (File_WriteAt (fst (File_Close fresh)) 0 [1, 2] 0)) = Some ErrClosed
   \<and> fst (snd (File_WriteAt (fst (File_Close fresh)) 0 [1, 2] 0)) = 0
   \<and> segs (files (fst (File_Close fresh)) ! 0) = []
   \<and> foff (files (fst (File_Close fresh)) ! 0) = 0
   \<and> segs (files (fst (File_WriteAt (fst (File_Close fresh)) 0 [1, 2] 0)) ! 0)
       = [\<lparr>off = 0, size' = 2, pos = 16, data = []\<rparr>]
   \<and> foff (files (fst (File_WriteAt (fst (File_Close fresh)) 0 [1, 2] 0)) ! 0) = 18"
  by code_simp

text \<open>
  C8, at its failing input. When closing shard 0 reports an I/O error, \<^verbatim>\<open>File.Close\<close>
  returns that error at once: shard 0 has been closed, shard 1 is still open.
\<close>

theorem C8_close_stops_at_first_error:
  "snd (File_Close \<lparr>files = [\<lparr>file' = \<lparr>contents = [], closed = False, failing = True\<rparr>,
                                 fsize = 0, foff = 0, segs = []\<rparr>,
                               \<lparr>file' = emptyfile, fsize = 0, foff = 0, segs = []\<rparr>],
                      msize = 0\<rparr>) = Some EIO
   \<and> map (\<lambda>sf. closed (file' sf))
        (files (fst (File_Close \<lparr>files = [\<lparr>file' = \<lparr>contents = [], closed = False, failing = True\<rparr>,
                                               fsize = 0, foff = 0, segs = []\<rparr>,
                                             \<lparr>file' = emptyfile, fsize = 0, foff = 0, segs = []\<rparr>],
                                    msize = 0\<rparr>)))
       = [True, False]"
  by code_simp

text \<open>
  C10, at its failing input. Two bytes are written at offset 0 and two at offset 10, which
  leaves a gap; the store's size is then 4. A read of 12 bytes at offset 0, which is not
  past that size, copies the first frame and then takes the second with \<^verbatim>\<open>segOff = 2 - 10\<close>:
  the slice \<^verbatim>\<open>s.data[segOff:]\<close> is out of range and the read panics.
\<close>

theorem C10_sparse_read_panics:
  "msize (writes fresh [(0, [1, 2], 0), (1, [3, 4], 10)]) = 4
   \<and> File_ReadAt (writes fresh [(0, [1, 2], 0), (1, [3, 4], 10)]) (replicate 12 0) 0
       = Inl SliceBounds"
  by code_simp

section \<open>The query of one shard\<close>

lemma sle_nat: "unat (a :: u64) < 2 ^ 63 \<Longrightarrow> unat b < 2 ^ 63 \<Longrightarrow> a \<le>s b \<longleftrightarrow> unat a \<le> unat b"
  by (simp add: word_sle_eq sint_unat word_le_nat_alt[symmetric] word_le_def[symmetric])


lemma search_loop_correct:
  "\<forall>a b. a \<le> b \<and> b < n \<and> p a \<longrightarrow> p b \<Longrightarrow>
   i \<le> j \<Longrightarrow> j \<le> n \<Longrightarrow> \<forall>k<i. \<not> p k \<Longrightarrow> \<forall>k. j \<le> k \<and> k < n \<longrightarrow> p k \<Longrightarrow>
   search_loop p i j \<le> n \<and> (\<forall>k. k < search_loop p i j \<longrightarrow> \<not> p k)
     \<and> (\<forall>k. search_loop p i j \<le> k \<and> k < n \<longrightarrow> p k)"
proof (induction p i j rule: search_loop.induct)
  case (1 p i j)
  note mono = "1.prems"(1)
  show ?case
  proof (cases "i < j")
    case False
    then have "search_loop p i j = i" by (subst search_loop.simps) simp
    moreover have "i = j" using False "1.prems"(2) by simp
    ultimately show ?thesis using "1.prems"(3-5) by auto
  next
    case True
    let ?h = "(i + j) div 2"
    have h: "i \<le> ?h" "?h < j" using True by auto
    have hn: "?h < n" using h "1.prems"(3) by simp
    show ?thesis
    proof (cases "p ?h")
      case False
      have nb: "\<forall>k<?h + 1. \<not> p k"
      proof (intro allI impI)
        fix k assume "k < ?h + 1"
        then have kh: "k \<le> ?h" by simp
        show "\<not> p k" using mono kh hn False by blast
      qed
      have eq: "search_loop p i j = search_loop p (?h + 1) j"
        using True False by (subst search_loop.simps) (simp add: Let_def)
      show ?thesis unfolding eq
        using True False h nb mono "1.prems"(3,5) by (intro "1.IH"(1)) (auto simp: Let_def)
    next
      case pt: True
      have na: "\<forall>k. ?h \<le> k \<and> k < n \<longrightarrow> p k"
        using mono pt by blast
      have eq: "search_loop p i j = search_loop p i ?h"
        using True pt by (subst search_loop.simps) (simp add: Let_def)
      show ?thesis unfolding eq
        using True pt h na mono "1.prems"(3,4) by (intro "1.IH"(2)) (auto simp: Let_def)
    qed
  qed
qed

lemma Search_correct:
  assumes "\<forall>a b. a \<le> b \<and> b < n \<and> p a \<longrightarrow> p b"
  shows "Search n p \<le> n \<and> (\<forall>k. k < Search n p \<longrightarrow> \<not> p k) \<and> (\<forall>k. Search n p \<le> k \<and> k < n \<longrightarrow> p k)"
  unfolding Search_def using assms by (intro search_loop_correct) auto

lemma scan_sorted:
  assumes "unat offset + unat wsize < 2 ^ 63"
  shows "sorted_wrt ends_before rest \<Longrightarrow> \<forall>s\<in>set rest. in_range s \<Longrightarrow>
    scan fl offset wsize rest acc err =
      Inr (acc @ map (load fl) (filter (in_window offset wsize) rest),
           scan_err fl err (filter (in_window offset wsize) rest))"
proof (induction rest arbitrary: acc err)
  case Nil
  show ?case by simp
next
  case (Cons s rest)
  have r: "unat (off s) + unat (size' s) < 2 ^ 63" "size' s \<le> maxAlloc"
    using Cons.prems(2) by (auto simp: in_range_def)
  have ue: "unat (off s + size' s) = unat (off s) + unat (size' s)"
    using r by (intro unat_add64) simp
  have uw: "unat (offset + wsize) = unat offset + unat wsize"
    using assms by (intro unat_add64) simp
  have skip: "off s + size' s \<le>s offset \<longleftrightarrow> unat (off s) + unat (size' s) \<le> unat offset"
    using r assms ue by (subst sle_nat) auto
  have brk: "offset + wsize \<le>s off s \<longleftrightarrow> unat offset + unat wsize \<le> unat (off s)"
    using r assms uw by (subst sle_nat) auto
  have IH: "scan fl offset wsize rest acc' err' =
      Inr (acc' @ map (load fl) (filter (in_window offset wsize) rest),
           scan_err fl err' (filter (in_window offset wsize) rest))" for acc' err'
    using Cons.prems by (intro Cons.IH) auto
  consider (a) "unat (off s) + unat (size' s) \<le> unat offset"
    | (b) "unat offset < unat (off s) + unat (size' s)" "unat offset + unat wsize \<le> unat (off s)"
    | (c) "in_window offset wsize s"
    by (auto simp: in_window_def) linarith
  then show ?case
  proof cases
    case a
    then have "\<not> in_window offset wsize s" by (simp add: in_window_def)
    then show ?thesis using a skip IH by simp
  next
    case b
    have "\<not> in_window offset wsize y" if "y \<in> set (s # rest)" for y
    proof -
      have "unat (off s) \<le> unat (off y)"
        using that Cons.prems(1) by (auto simp: ends_before_def)
      then show ?thesis using b by (simp add: in_window_def)
    qed
    then have "filter (in_window offset wsize) (s # rest) = []"
      by (simp only: filter_empty_conv) blast
    then show ?thesis using b skip brk by simp
  next
    case c
    then have "\<not> off s + size' s \<le>s offset" "\<not> offset + wsize \<le>s off s"
      using skip brk by (auto simp: in_window_def)
    then show ?thesis using c r IH
      by (simp add: Let_def load_def not_less)
  qed
qed

lemma SegFile_ReadAt_sorted:
  assumes "unat offset + unat wsize < 2 ^ 63"
    and "sorted_wrt ends_before (segs f)" and "\<forall>s\<in>set (segs f). in_range s"
  shows "SegFile_ReadAt f offset wsize =
      Inr (map (load (file' f)) (filter (in_window offset wsize) (segs f)),
           scan_err (file' f) None (filter (in_window offset wsize) (segs f)))"
proof -
  let ?n = "length (segs f)"
  let ?p = "\<lambda>i. offset < off (segs f ! i)"
  let ?idx = "Search ?n ?p"
  let ?start = "?idx - 1"
  have mono: "?p b" if "a \<le> b" "b < ?n" "?p a" for a b
  proof (cases "a = b")
    case False
    then have "ends_before (segs f ! a) (segs f ! b)"
      using that assms(2) by (auto simp: sorted_wrt_iff_nth_less)
    then have "unat (off (segs f ! a)) \<le> unat (off (segs f ! b))"
      by (simp add: ends_before_def)
    then show ?thesis using that(3) by (simp add: word_less_nat_alt)
  qed (use that in simp)
  have S: "?idx \<le> ?n" "\<forall>k. k < ?idx \<longrightarrow> \<not> ?p k"
    using Search_correct[of ?n ?p] mono by blast+
  have before: "\<not> in_window offset wsize (segs f ! k)" if "k < ?start" for k
  proof -
    have k: "k < ?idx - 1" "?idx - 1 < ?idx" "?idx - 1 < ?n" using that S(1) by auto
    have "ends_before (segs f ! k) (segs f ! (?idx - 1))"
      using k assms(2) by (auto simp: sorted_wrt_iff_nth_less)
    moreover have "unat (off (segs f ! (?idx - 1))) \<le> unat offset"
      using S(2) k(2) by (simp add: word_less_nat_alt not_less)
    ultimately show ?thesis by (simp add: in_window_def ends_before_def)
  qed
  have "filter (in_window offset wsize) (take ?start (segs f)) = []"
    unfolding filter_empty_conv
  proof
    fix x assume "x \<in> set (take ?start (segs f))"
    then obtain k where "k < ?start" "k < ?n" "x = segs f ! k"
      by (auto simp: in_set_conv_nth)
    then show "\<not> in_window offset wsize x" using before by simp
  qed
  then have flt: "filter (in_window offset wsize) (drop ?start (segs f))
       = filter (in_window offset wsize) (segs f)"
    using filter_append[of "in_window offset wsize" "take ?start (segs f)" "drop ?start (segs f)"]
    by simp
  have "scan (file' f) offset wsize (drop ?start (segs f)) [] None =
      Inr ([] @ map (load (file' f)) (filter (in_window offset wsize) (drop ?start (segs f))),
           scan_err (file' f) None (filter (in_window offset wsize) (drop ?start (segs f))))"
    using assms by (intro scan_sorted) (auto simp: sorted_wrt_drop dest: in_set_dropD)
  moreover have "(if int ?idx - 1 < 0 then 0 else ?idx - 1) = ?start" by auto
  ultimately show ?thesis unfolding flt
    by (simp add: SegFile_ReadAt_def Let_def)
qed

lemma off_le_load: "off_le (load fl x) (load fl y) = off_le x y"
  by (simp add: off_le_def load_def)

lemma sorted_off_le_load_filter:
  "sorted_wrt ends_before ss \<Longrightarrow> sorted_wrt off_le (map (load fl) (filter P ss))"
proof -
  assume "sorted_wrt ends_before ss"
  then have "sorted_wrt off_le ss"
    by (rule sorted_wrt_mono_rel[rotated]) (simp add: ends_before_def off_le_def word_le_nat_alt)
  then have "sorted_wrt off_le (filter P ss)" by (rule sorted_wrt_filter)
  then show ?thesis by (simp add: sorted_wrt_map off_le_load)
qed

text \<open>
  C4 as the spec states it, refuted. Shard 0 holds ten bytes written at offset 0 and one
  byte written at offset 5, so its descriptors are in ascending order of offset. The
  query for the one byte at offset 7 searches for the first descriptor beyond 7, finds
  none, backs up to the last descriptor (offset 5, which ends at 6) and returns nothing,
  although the first frame covers offset 7.
\<close>

theorem C4_backup_misses_long_frame_counterexample:
  "sorted_wrt off_le (segs (files (writes fresh [(0, [1, 2, 3, 4, 5, 6, 7, 8, 9, 10], 0), (0, [11], 5)]) ! 0))
   \<and> SegFile_ReadAt (files (writes fresh [(0, [1, 2, 3, 4, 5, 6, 7, 8, 9, 10], 0), (0, [11], 5)]) ! 0) 7 1
       = Inr ([], None)
   \<and> in_window 7 1 (segs (files (writes fresh [(0, [1, 2, 3, 4, 5, 6, 7, 8, 9, 10], 0), (0, [11], 5)]) ! 0) ! 0)"
  by code_simp

text \<open>
  C4, amended: for a shard whose descriptors do not overlap (each frame ends at or before
  the offset of every later one) and stay within the signed 64-bit range, with no frame
  longer than the runtime can allocate, the query returns, in the order of the list and so
  in ascending order of offset, exactly the descriptors \<open>s\<close> with
  \<open>offset < off s + size s\<close> and \<open>off s < offset + wsize\<close>, each with the payload read for it.
\<close>

theorem C4_query_non_overlapping:
  assumes "sorted_wrt ends_before (segs f)"
    and "\<forall>s\<in>set (segs f). in_range s"
    and "unat offset + unat wsize < 2 ^ 63"
  shows "(\<exists>err. SegFile_ReadAt f offset wsize =
            Inr (map (load (file' f)) (filter (in_window offset wsize) (segs f)), err))
         \<and> sorted_wrt off_le (map (load (file' f)) (filter (in_window offset wsize) (segs f)))"
  using assms SegFile_ReadAt_sorted[of offset wsize f] sorted_off_le_load_filter
  by simp

theorem C4_query_non_overlapping_witness:
  "sorted_wrt ends_before [\<lparr>off = 0, size' = 2, pos = 16, data = []\<rparr>, \<lparr>off = 2, size' = 1, pos = 34, data = []\<rparr>,
                             \<lparr>off = 3, size' = 1, pos = 51, data = []\<rparr>]
   \<and> SegFile_ReadAt
         \<lparr>file' = \<lparr>contents = encode_log [(0, [1, 2]), (2, [3]), (3, [4])], closed = False, failing = False\<rparr>,
          fsize = 4, foff = 52,
          segs = [\<lparr>off = 0, size' = 2, pos = 16, data = []\<rparr>, \<lparr>off = 2, size' = 1, pos = 34, data = []\<rparr>,
                  \<lparr>off = 3, size' = 1, pos = 51, data = []\<rparr>]\<rparr> 1 2
       = Inr ([\<lparr>off = 0, size' = 2, pos = 16, data = [1, 2]\<rparr>, \<lparr>off = 2, size' = 1, pos = 34, data = [3]\<rparr>], None)"
proof -
  let ?f = "\<lparr>file' = \<lparr>contents = encode_log [(0, [1, 2]), (2, [3]), (3, [4])], closed = False, failing = False\<rparr>,
          fsize = 4, foff = 52,
          segs = [\<lparr>off = 0, size' = 2, pos = 16, data = []\<rparr>, \<lparr>off = 2, size' = 1, pos = 34, data = []\<rparr>,
                  \<lparr>off = 3, size' = 1, pos = 51, data = []\<rparr>]\<rparr>"
  have 1: "sorted_wrt ends_before (segs ?f)" by (simp add: ends_before_def)
  have 2: "\<forall>s\<in>set (segs ?f). in_range s" by (simp add: in_range_def maxAlloc_def)
  have 3: "unat (1 :: u64) + unat (2 :: u64) < 2 ^ 63" by simp
  have 4: "SegFile_ReadAt ?f 1 2
       = Inr ([\<lparr>off = 0, size' = 2, pos = 16, data = [1, 2]\<rparr>, \<lparr>off = 2, size' = 1, pos = 34, data = [3]\<rparr>], None)"
    by code_simp
  show ?thesis using C4_query_non_overlapping[OF 1 2 3] 1 4 by simp
qed

section \<open>Writes keep the log and the descriptors in step\<close>














lemma log_bytes_append: "log_bytes (xs @ ys) = log_bytes xs + log_bytes ys"
  by (simp add: log_bytes_def)



section \<open>Closing and reopening a store\<close>


















end
